theory Spec2Isabelle
  imports Complex_Main "HOL-Library.Char_ord"
begin

section \<open>Data model (models.py)\<close>

text \<open>
  The SQLAlchemy models, as records. Python integers are unbounded, so every integer
  column is an \<open>int\<close>. A row letter is a one-character string (\<open>String(1)\<close>), modelled
  as a \<open>char\<close>. Columns that no modelled function reads (title, created_at, is_active)
  are left out.
\<close>

record movie =
  movie_pk :: int
  rows :: int
  seats_per_row :: int

record seat =
  seat_pk :: int
  movie_id :: int
  row_letter :: char
  seat_number :: int
  is_booked :: bool

record booking_seat =
  booking_id :: int
  seat_id :: int

record booking =
  booking_pk :: int
  booking_movie_id :: int

text \<open>
  The database session is the snapshot of its tables. A query is a filter over the
  table's list of rows; \<open>.first()\<close> is the first row that matches.
\<close>

record db =
  movie_table :: "movie list"
  seat_table :: "seat list"
  booking_seat_table :: "booking_seat list"

definition query_movie :: "db \<Rightarrow> int \<Rightarrow> movie option" where
  "query_movie d mid = find (\<lambda>m. movie_pk m = mid) (movie_table d)"

section \<open>Centering preference (seat_allocation.py, get_middle_start_column)\<close>

text \<open>
  Python's \<open>/\<close> on integers is true division; the model computes it in exact rational
  arithmetic. \<open>int(x)\<close> truncates toward zero.
\<close>

definition py_int :: "rat \<Rightarrow> int" where
  "py_int x = (if 0 \<le> x then \<lfloor>x\<rfloor> else \<lceil>x\<rceil>)"

definition get_middle_start_column :: "int \<Rightarrow> int \<Rightarrow> int" where
  "get_middle_start_column spr num_tickets =
     (if num_tickets \<ge> spr then 1
      else
        let center = (of_int spr + 1) / 2;
            half_tickets = of_int num_tickets / 2;
            start = center - half_tickets + 1 / 2
        in max 1 (py_int start))"

section \<open>Position parser (seat_allocation.py, parse_seat_position)\<close>

text \<open>
  Strings are lists of ASCII characters. \<open>str.strip\<close> removes the characters for which
  \<open>str.isspace\<close> holds (in ASCII: tab, line feed, vertical tab, form feed, carriage
  return, the separators 28 to 31, and space); \<open>str.upper\<close> maps a..z to A..Z. The
  Unicode-aware behaviour of both outside ASCII is not modelled.
\<close>

definition is_space :: "char \<Rightarrow> bool" where
  "is_space c = (of_char c \<in> {9, 10, 11, 12, 13, 28, 29, 30, 31, 32 :: nat})"

definition strip :: "string \<Rightarrow> string" where
  "strip s = rev (dropWhile is_space (rev (dropWhile is_space s)))"

definition char_upper :: "char \<Rightarrow> char" where
  "char_upper c =
     (if 97 \<le> (of_char c :: nat) \<and> (of_char c :: nat) \<le> 122
      then char_of (of_char c - 32 :: nat) else c)"

definition upper :: "string \<Rightarrow> string" where
  "upper s = map char_upper s"

definition is_AZ :: "char \<Rightarrow> bool" where
  "is_AZ c = (65 \<le> (of_char c :: nat) \<and> (of_char c :: nat) \<le> 90)"

definition is_digit :: "char \<Rightarrow> bool" where
  "is_digit c = (48 \<le> (of_char c :: nat) \<and> (of_char c :: nat) \<le> 57)"

definition digit_value :: "char \<Rightarrow> int" where
  "digit_value c = int (of_char c) - 48"

text \<open>\<open>int(s)\<close> on a string of decimal digits.\<close>

definition int_of_digits :: "string \<Rightarrow> int" where
  "int_of_digits ds = foldl (\<lambda>acc c. 10 * acc + digit_value c) 0 ds"

text \<open>
  \<open>re.match(r'^([A-Z])(\d+)$', position)\<close>: one capital letter, then the longest run of
  digits (the group is greedy, and giving a digit back would leave a digit in front
  of \<open>$\<close>), then \<open>$\<close>, which Python matches at the end of the string and also just
  before a line feed that ends the string. The result is the two groups.
\<close>

definition re_match_position :: "string \<Rightarrow> (char \<times> string) option" where
  "re_match_position position =
     (case position of
        [] \<Rightarrow> None
      | c # rest \<Rightarrow>
          if is_AZ c then
            let ds = takeWhile is_digit rest;
                tail = dropWhile is_digit rest
            in if ds \<noteq> [] \<and> (tail = [] \<or> tail = [char_of (10 :: nat)])
               then Some (c, ds) else None
          else None)"

definition parse_seat_position :: "string \<Rightarrow> (char \<times> int) option" where
  "parse_seat_position position =
     (if position = [] then None
      else
        let position = upper (strip position) in
        case re_match_position position of
          None \<Rightarrow> None
        | Some (group1, group2) \<Rightarrow> Some (group1, int_of_digits group2))"

section \<open>Row queries (seat_allocation.py)\<close>

text \<open>
  \<open>order_by(Seat.seat_number)\<close> is a sort on the seat number; the unique constraint
  on (movie, row, number) leaves no ties inside one row.
\<close>

definition get_available_seats_in_row :: "db \<Rightarrow> int \<Rightarrow> char \<Rightarrow> seat list" where
  "get_available_seats_in_row d mid r =
     sort_key seat_number
       (filter (\<lambda>s. movie_id s = mid \<and> row_letter s = r \<and> \<not> is_booked s) (seat_table d))"

definition ascii_uppercase :: string where
  "ascii_uppercase = ''ABCDEFGHIJKLMNOPQRSTUVWXYZ''"

text \<open>The slice \<open>xs[:k]\<close>: a negative \<open>k\<close> counts from the end.\<close>

definition py_prefix :: "'a list \<Rightarrow> int \<Rightarrow> 'a list" where
  "py_prefix xs k =
     (if 0 \<le> k then take (nat k) xs else take (nat (int (length xs) + k)) xs)"

text \<open>\<open>list(string.ascii_uppercase[:movie.rows])\<close>, which the source writes out three times.\<close>

definition row_letters_of :: "movie \<Rightarrow> char list" where
  "row_letters_of m = py_prefix ascii_uppercase (rows m)"

definition get_row_letters_for_movie :: "db \<Rightarrow> int \<Rightarrow> char list" where
  "get_row_letters_for_movie d mid =
     (case query_movie d mid of
        None \<Rightarrow> []
      | Some m \<Rightarrow> row_letters_of m)"

section \<open>Centered-block selector (seat_allocation.py, select_centered_seats)\<close>

text \<open>
  The inner loop over \<open>j\<close>: the window of \<open>count\<close> numbers at index \<open>i\<close> is consecutive
  when each of its \<open>count - 1\<close> steps is 1 (the \<open>break\<close> only stops early). The outer
  loop keeps \<open>i \<le> length - count\<close>, so every index read is in range.
\<close>

definition is_consecutive :: "int list \<Rightarrow> nat \<Rightarrow> nat \<Rightarrow> bool" where
  "is_consecutive nums i count =
     list_all (\<lambda>j. nums ! (i + j + 1) - nums ! (i + j) = 1) [0..<count - 1]"

text \<open>
  One turn of the outer loop. The state is \<open>(best_start_idx, best_distance)\<close>;
  \<open>None\<close> is \<open>float('inf')\<close>, which every integer distance is below.
\<close>

fun scan_step :: "int list \<Rightarrow> nat \<Rightarrow> int \<Rightarrow> nat \<times> int option \<Rightarrow> nat \<Rightarrow> nat \<times> int option" where
  "scan_step nums count preferred_start (best_start_idx, best_distance) i =
     (if is_consecutive nums i count then
        let actual_start = nums ! i;
            distance = \<bar>actual_start - preferred_start\<bar>
        in (case best_distance of
              None \<Rightarrow> (i, Some distance)
            | Some b \<Rightarrow>
                if distance < b then (i, Some distance)
                else (best_start_idx, best_distance))
      else (best_start_idx, best_distance))"

definition scan_blocks :: "int list \<Rightarrow> nat \<Rightarrow> int \<Rightarrow> nat \<times> int option" where
  "scan_blocks nums count preferred_start =
     fold (\<lambda>i st. scan_step nums count preferred_start st i)
       [0..<length nums - count + 1] (0, None)"

text \<open>
  The dictionary comprehension keeps the last seat of each number, and its keys,
  sorted, are the distinct numbers. Every selected number is a key, so the lookup
  in the last line cannot fail.
\<close>

definition select_centered_seats :: "seat list \<Rightarrow> int \<Rightarrow> int \<Rightarrow> seat list" where
  "select_centered_seats available_seats count preferred_start =
     (if available_seats = [] \<or> count \<le> 0 then []
      else
        let available_map = map_of (rev (map (\<lambda>s. (seat_number s, s)) available_seats));
            available_numbers = sort (remdups (map seat_number available_seats))
        in if count \<ge> int (length available_numbers) then take (nat count) available_seats
           else
             let best_start_idx = fst (scan_blocks available_numbers (nat count) preferred_start);
                 selected_numbers = take (nat count) (drop best_start_idx available_numbers)
             in map (\<lambda>n. the (available_map n)) selected_numbers)"

section \<open>Default allocator (seat_allocation.py, get_default_seats)\<close>

text \<open>
  The loop over the row letters, with its state \<open>remaining\<close> and \<open>selected_seats\<close>.
\<close>

fun default_loop :: "db \<Rightarrow> int \<Rightarrow> int \<Rightarrow> char list \<Rightarrow> int \<Rightarrow> seat list \<Rightarrow> seat list" where
  "default_loop d mid spr [] remaining selected_seats = selected_seats"
| "default_loop d mid spr (r # rs) remaining selected_seats =
     (if remaining \<le> 0 then selected_seats
      else
        let available = get_available_seats_in_row d mid r in
        if available = [] then default_loop d mid spr rs remaining selected_seats
        else
          let to_take = min remaining (int (length available));
              start_col = get_middle_start_column spr to_take;
              selected_from_row = select_centered_seats available to_take start_col
          in default_loop d mid spr rs
               (remaining - int (length selected_from_row))
               (selected_seats @ selected_from_row))"

definition get_default_seats :: "db \<Rightarrow> int \<Rightarrow> int \<Rightarrow> seat list" where
  "get_default_seats d mid num_tickets =
     (case query_movie d mid of
        None \<Rightarrow> []
      | Some m \<Rightarrow>
          default_loop d mid (seats_per_row m) (get_row_letters_for_movie d mid)
            num_tickets [])"

section \<open>Positional allocator (seat_allocation.py, get_seats_from_position)\<close>

text \<open>\<open>xs.index(x)\<close>, called only when \<open>x in xs\<close>.\<close>

fun index_of :: "'a list \<Rightarrow> 'a \<Rightarrow> nat" where
  "index_of [] x = 0"
| "index_of (y # ys) x = (if y = x then 0 else Suc (index_of ys x))"

fun position_loop ::
  "db \<Rightarrow> int \<Rightarrow> int \<Rightarrow> int \<Rightarrow> char list \<Rightarrow> bool \<Rightarrow> int \<Rightarrow> seat list \<Rightarrow> seat list" where
  "position_loop d mid spr start_col [] is_first_row remaining selected_seats = selected_seats"
| "position_loop d mid spr start_col (r # rs) is_first_row remaining selected_seats =
     (if remaining \<le> 0 then selected_seats
      else
        let available = get_available_seats_in_row d mid r in
        if available = [] then
          position_loop d mid spr start_col rs is_first_row remaining selected_seats
        else if is_first_row then
          let seats_to_right =
                sort_key seat_number (filter (\<lambda>s. seat_number s \<ge> start_col) available);
              to_take = min remaining (int (length seats_to_right))
          in position_loop d mid spr start_col rs False
               (remaining - to_take)
               (selected_seats @ take (nat to_take) seats_to_right)
        else
          let to_take = min remaining (int (length available));
              start_col_centered = get_middle_start_column spr to_take;
              selected_from_row = select_centered_seats available to_take start_col_centered
          in position_loop d mid spr start_col rs False
               (remaining - int (length selected_from_row))
               (selected_seats @ selected_from_row))"

definition get_seats_from_position :: "db \<Rightarrow> int \<Rightarrow> char \<Rightarrow> int \<Rightarrow> int \<Rightarrow> seat list" where
  "get_seats_from_position d mid start_row start_col num_tickets =
     (case query_movie d mid of
        None \<Rightarrow> []
      | Some m \<Rightarrow>
          let all_rows = row_letters_of m in
          if start_row \<notin> set all_rows then []
          else
            let start_idx = index_of all_rows start_row;
                rows_to_check = drop start_idx all_rows
            in position_loop d mid (seats_per_row m) start_col rows_to_check True
                 num_tickets [])"

section \<open>Allocation orchestrator (seat_allocation.py, allocate_seats)\<close>

text \<open>
  The result dictionary. Each error message is a constructor that carries the values
  the message interpolates: \<open>NotFound\<close> is 'Movie not found',
  \<open>InsufficientCapacity n\<close> is 'Not enough seats available. Only n seats remaining.',
  \<open>InvalidFormat p\<close> is 'Invalid seat position: p',
  \<open>RowOutOfRange r z\<close> is 'Invalid row: r. Valid rows are A-z',
  \<open>ColumnOutOfRange c n\<close> is 'Invalid column: c. Valid columns are 1-n' and
  \<open>FragmentationFailure n\<close> is 'Could not allocate n contiguous seats. Try a
  different position.'
\<close>

datatype alloc_error =
    NotFound
  | InsufficientCapacity int
  | InvalidFormat string
  | RowOutOfRange char char
  | ColumnOutOfRange int int
  | FragmentationFailure int

record alloc_result =
  success :: bool
  seats :: "seat list"
  error :: "alloc_error option"

datatype py_exception = IndexError | AttributeError

definition failure :: "alloc_error \<Rightarrow> alloc_result" where
  "failure e = \<lparr>success = False, seats = [], error = Some e\<rparr>"

text \<open>The last check of the function, shared by both branches.\<close>

definition check_length :: "int \<Rightarrow> seat list \<Rightarrow> alloc_result" where
  "check_length num_tickets sel =
     (if int (length sel) < num_tickets then failure (FragmentationFailure num_tickets)
      else \<lparr>success = True, seats = sel, error = None\<rparr>)"

text \<open>The count of the movie's unbooked seats.\<close>

definition total_available :: "db \<Rightarrow> int \<Rightarrow> int" where
  "total_available d mid =
     int (length (filter (\<lambda>s. movie_id s = mid \<and> \<not> is_booked s) (seat_table d)))"

text \<open>
  \<open>if start_position:\<close> is false for \<open>None\<close> and for the empty string. The message
  of the row error reads \<open>row_letters[-1]\<close>, which raises IndexError when the movie
  has no row letters.
\<close>

definition allocate_seats ::
  "db \<Rightarrow> int \<Rightarrow> int \<Rightarrow> string option \<Rightarrow> py_exception + alloc_result" where
  "allocate_seats d mid num_tickets start_position =
     (case query_movie d mid of
        None \<Rightarrow> Inr (failure NotFound)
      | Some m \<Rightarrow>
          if total_available d mid < num_tickets
          then Inr (failure (InsufficientCapacity (total_available d mid)))
          else if start_position \<noteq> None \<and> start_position \<noteq> Some [] then
            (case parse_seat_position (the start_position) of
               None \<Rightarrow> Inr (failure (InvalidFormat (the start_position)))
             | Some (start_row, col_number) \<Rightarrow>
                 let row_letters = row_letters_of m in
                 if start_row \<notin> set row_letters then
                   (if row_letters = [] then Inl IndexError
                    else Inr (failure (RowOutOfRange start_row (last row_letters))))
                 else if col_number < 1 \<or> col_number > seats_per_row m then
                   Inr (failure (ColumnOutOfRange col_number (seats_per_row m)))
                 else
                   Inr (check_length num_tickets
                          (get_seats_from_position d mid start_row col_number num_tickets)))
          else Inr (check_length num_tickets (get_default_seats d mid num_tickets)))"

section \<open>Booking-detail seating map (main.py, get_booking_seating_map)\<close>

text \<open>\<open>str(n)\<close> for an integer, in decimal.\<close>

fun str_nat :: "nat \<Rightarrow> string" where
  "str_nat n =
     (if n < 10 then [char_of (48 + n)]
      else str_nat (n div 10) @ [char_of (48 + n mod 10)])"

declare str_nat.simps [simp del]

definition py_str :: "int \<Rightarrow> string" where
  "py_str i = (if i < 0 then CHR ''-'' # str_nat (nat (- i)) else str_nat (nat i))"

record seat_cell =
  number :: int
  marker :: char
  label :: string

record row_entry =
  letter :: char
  cells :: "seat_cell list"

record seating_map =
  map_rows :: "row_entry list"
  map_seats_per_row :: int
  map_movie :: movie

text \<open>
  The cell of one slot: \<open>next(...)\<close> is the first seat record of the row with that
  number, or \<open>None\<close>; a seat object is always true in \<open>if seat:\<close>.
\<close>

definition slot_marker :: "seat list \<Rightarrow> int set \<Rightarrow> int set \<Rightarrow> char \<Rightarrow> int \<Rightarrow> char" where
  "slot_marker all_seats viewed_booking_seat_ids other_booked_seat_ids r seat_num =
     (case find (\<lambda>s. row_letter s = r \<and> seat_number s = seat_num) all_seats of
        Some s \<Rightarrow>
          if seat_pk s \<in> viewed_booking_seat_ids then CHR ''o''
          else if seat_pk s \<in> other_booked_seat_ids then CHR ''#''
          else CHR ''.''
      | None \<Rightarrow> CHR ''.'')"

text \<open>
  \<open>viewing_booking.movie\<close> and \<open>viewing_booking.booking_seats\<close> are the ORM
  relationships: the movie whose key is the booking's \<open>movie_id\<close> (reading \<open>movie.id\<close>
  raises AttributeError when there is none) and the booking-seat rows of the booking.
  The join pairs a booking-seat row with the seat it names.
\<close>

definition get_booking_seating_map :: "db \<Rightarrow> booking \<Rightarrow> py_exception + seating_map" where
  "get_booking_seating_map d viewing_booking =
     (case query_movie d (booking_movie_id viewing_booking) of
        None \<Rightarrow> Inl AttributeError
      | Some m \<Rightarrow>
          let all_seats = filter (\<lambda>s. movie_id s = movie_pk m) (seat_table d);
              viewed_booking_seat_ids =
                set (map seat_id
                  (filter (\<lambda>bs. booking_id bs = booking_pk viewing_booking)
                     (booking_seat_table d)));
              all_booked_seats =
                [bs. bs \<leftarrow> booking_seat_table d, s \<leftarrow> seat_table d,
                     seat_id bs = seat_pk s \<and> movie_id s = movie_pk m];
              other_booked_seat_ids =
                set (map seat_id
                  (filter (\<lambda>bs. seat_id bs \<notin> viewed_booking_seat_ids) all_booked_seats));
              row_letters = rev (sort (remdups (map row_letter all_seats)));
              spr = seats_per_row m
          in Inr \<lparr>map_rows =
                    map (\<lambda>r.
                      \<lparr>letter = r,
                       cells =
                         map (\<lambda>seat_num.
                           \<lparr>number = seat_num,
                            marker = slot_marker all_seats viewed_booking_seat_ids
                                       other_booked_seat_ids r seat_num,
                            label = r # py_str seat_num\<rparr>) [1..spr]\<rparr>) row_letters,
                  map_seats_per_row = spr,
                  map_movie = m\<rparr>)"

section \<open>Creating and booking seats (main.py)\<close>

text \<open>
  \<open>create_seats_for_movie\<close> adds one unbooked seat for every row letter and every
  number from 1 to \<open>seats_per_row\<close>; the database numbers the new rows after the ones
  it holds. \<open>mark_booked\<close> is the loop of \<open>confirm_booking\<close> that sets \<open>is_booked\<close>
  on the chosen seats and links them to the booking.
\<close>

definition create_seats_for_movie :: "db \<Rightarrow> movie \<Rightarrow> db" where
  "create_seats_for_movie d m =
     d\<lparr>seat_table := seat_table d @
         map (\<lambda>(k, r, n).
                \<lparr>seat_pk = int (length (seat_table d)) + int k + 1, movie_id = movie_pk m,
                 row_letter = r, seat_number = n, is_booked = False\<rparr>)
           (enumerate 0 [(r, n). r \<leftarrow> row_letters_of m, n \<leftarrow> [1..seats_per_row m]])\<rparr>"

definition mark_booked :: "db \<Rightarrow> int \<Rightarrow> int list \<Rightarrow> db" where
  "mark_booked d bid ids =
     d\<lparr>seat_table :=
         map (\<lambda>s. if seat_pk s \<in> set ids then s\<lparr>is_booked := True\<rparr> else s) (seat_table d),
       booking_seat_table :=
         booking_seat_table d @ map (\<lambda>i. \<lparr>booking_id = bid, seat_id = i\<rparr>) ids\<rparr>"

text \<open>A new venue: one movie with key 1 and its seats, none booked.\<close>

definition new_venue :: "int \<Rightarrow> int \<Rightarrow> db" where
  "new_venue nr spr =
     (let m = \<lparr>movie_pk = 1, rows = nr, seats_per_row = spr\<rparr>
      in create_seats_for_movie \<lparr>movie_table = [m], seat_table = [], booking_seat_table = []\<rparr> m)"

section \<open>Specification predicates and example rows\<close>

text \<open>
  A contiguous run of \<open>count\<close> available seat numbers that starts at \<open>a\<close>: the numbers
  \<open>a, a + 1, \<dots>, a + count - 1\<close> are all available.
\<close>

definition contiguous_run :: "int list \<Rightarrow> int \<Rightarrow> int \<Rightarrow> bool" where
  "contiguous_run nums a count = (set [a..a + count - 1] \<subseteq> set nums)"

text \<open>A row of unbooked seats of movie 1 with the given numbers.\<close>

definition free_seats :: "char \<Rightarrow> int list \<Rightarrow> seat list" where
  "free_seats r ns =
     map (\<lambda>n. \<lparr>seat_pk = n, movie_id = 1, row_letter = r, seat_number = n, is_booked = False\<rparr>) ns"


text \<open>
  A venue with no booked seats: the movie is in the snapshot with its configuration
  in range, none of its seats is booked, and each of its rows holds exactly one seat
  for every number from 1 to \<open>seats_per_row\<close>.
\<close>

definition fresh_venue :: "db \<Rightarrow> movie \<Rightarrow> bool" where
  "fresh_venue d m \<longleftrightarrow>
     query_movie d (movie_pk m) = Some m
     \<and> 1 \<le> rows m \<and> rows m \<le> 26 \<and> 1 \<le> seats_per_row m
     \<and> list_all (\<lambda>s. movie_id s = movie_pk m \<longrightarrow> \<not> is_booked s) (seat_table d)
     \<and> list_all
         (\<lambda>r. map seat_number
                (sort_key seat_number
                   (filter (\<lambda>s. movie_id s = movie_pk m \<and> row_letter s = r) (seat_table d)))
              = [1..seats_per_row m])
         (row_letters_of m)"

text \<open>
  The status of a seat slot in the booking-detail view, in the words of the
  specification: self (\<open>o\<close>) when the slot's seat belongs to the viewed booking,
  other (\<open>#\<close>) when it belongs to another booking, available (\<open>.\<close>) otherwise, and
  available when the movie has no seat record for the slot.
\<close>

definition slot_status :: "db \<Rightarrow> booking \<Rightarrow> movie \<Rightarrow> char \<Rightarrow> int \<Rightarrow> char" where
  "slot_status d b m r k =
     (case find (\<lambda>s. movie_id s = movie_pk m \<and> row_letter s = r \<and> seat_number s = k)
             (seat_table d) of
        None \<Rightarrow> CHR ''.''
      | Some s \<Rightarrow>
          if list_ex (\<lambda>bs. booking_id bs = booking_pk b \<and> seat_id bs = seat_pk s)
               (booking_seat_table d)
          then CHR ''o''
          else if list_ex (\<lambda>bs. booking_id bs \<noteq> booking_pk b \<and> seat_id bs = seat_pk s)
                    (booking_seat_table d)
          then CHR ''#''
          else CHR ''.'')"

text \<open>
  A snapshot with two bookings: booking 1 holds A1 and A2, booking 2 holds B2, and
  the record of B3 is missing.
\<close>

definition two_bookings :: db where
  "two_bookings =
     (let d = mark_booked (mark_booked (new_venue 2 3) 1 [1, 2]) 2 [5]
      in d\<lparr>seat_table := filter (\<lambda>s. seat_pk s \<noteq> 6) (seat_table d)\<rparr>)"

section \<open>Properties of the centering preference\<close>




section \<open>Requests for no tickets\<close>

lemma default_loop_nonpos:
  "remaining \<le> 0 \<Longrightarrow> default_loop d mid spr rs remaining sel = sel"
  by (cases rs) simp_all

lemma total_available_nonneg: "0 \<le> total_available d mid"
  by (simp add: total_available_def)

text \<open>
  Claim C10. For every existing venue, allocate with num_tickets \<open>\<le> 0\<close> and no start
  position returns success with an empty seat list and no error, whatever the number
  of available seats.
\<close>

theorem C10_nonpositive_tickets:
  assumes "query_movie d mid = Some m" and "num_tickets \<le> 0"
  shows "allocate_seats d mid num_tickets None
           = Inr \<lparr>success = True, seats = [], error = None\<rparr>"
proof -
  have "\<not> total_available d mid < num_tickets"
    using total_available_nonneg [of d mid] assms(2) by linarith
  moreover have "get_default_seats d mid num_tickets = []"
    using assms by (simp add: get_default_seats_def default_loop_nonpos)
  ultimately show ?thesis
    using assms by (simp add: allocate_seats_def check_length_def)
qed

text \<open>A venue of one row whose two seats are both booked, asked for \<open>-3\<close> tickets.\<close>

theorem C10_nonpositive_tickets_witness:
  "allocate_seats (mark_booked (new_venue 1 2) 1 [1, 2]) 1 (- 3) None
     = Inr \<lparr>success = True, seats = [], error = None\<rparr>
   \<and> total_available (mark_booked (new_venue 1 2) 1 [1, 2]) 1 = 0"
proof -
  have "query_movie (mark_booked (new_venue 1 2) 1 [1, 2]) 1
          = Some \<lparr>movie_pk = 1, rows = 1, seats_per_row = 2\<rparr>"
    by code_simp
  moreover have "total_available (mark_booked (new_venue 1 2) 1 [1, 2]) 1 = 0"
    by code_simp
  ultimately show ?thesis
    using C10_nonpositive_tickets [of "mark_booked (new_venue 1 2) 1 [1, 2]" 1 _ "- 3"]
    by simp
qed

section \<open>A fully booked starting row\<close>

text \<open>
  Claim C2, at a snapshot where it fails. The venue has rows A and B of three seats;
  A1, A2, A3 are booked. Asked for 2 seats from A3, the positional allocator skips
  row A without clearing \<open>is_first_row\<close>, so row B is filtered rightward from column
  3 and gives B3 alone, and the request fails. The default per-row step on row B
  takes min(2, 3) = 2 seats by the centered-block selector: B1 and B2.
\<close>

theorem C2_first_row_flag_survives_empty_row:
  "get_available_seats_in_row (mark_booked (new_venue 2 3) 1 [1, 2, 3]) 1 (CHR ''A'') = []
   \<and> map (\<lambda>s. (row_letter s, seat_number s))
       (get_seats_from_position (mark_booked (new_venue 2 3) 1 [1, 2, 3]) 1 (CHR ''A'') 3 2)
     = [(CHR ''B'', 3)]
   \<and> map (\<lambda>s. (row_letter s, seat_number s))
       (select_centered_seats
          (get_available_seats_in_row (mark_booked (new_venue 2 3) 1 [1, 2, 3]) 1 (CHR ''B''))
          (min 2 3) (get_middle_start_column 3 (min 2 3)))
     = [(CHR ''B'', 1), (CHR ''B'', 2)]
   \<and> allocate_seats (mark_booked (new_venue 2 3) 1 [1, 2, 3]) 1 2 (Some ''A3'')
     = Inr (failure (FragmentationFailure 2))"
  by code_simp

section \<open>The centered-block selector finds the nearest run\<close>

lemma scan_fold_inv:
  "fold (\<lambda>i st. scan_step nums c p st i) [0..<m] (0, None) = (b, bd) \<Longrightarrow>
     (case bd of
        None \<Rightarrow> b = 0 \<and> (\<forall>i<m. \<not> is_consecutive nums i c)
      | Some bst \<Rightarrow>
          b < m \<and> is_consecutive nums b c \<and> bst = \<bar>nums ! b - p\<bar> \<and>
          (\<forall>i<m. is_consecutive nums i c \<longrightarrow>
             bst \<le> \<bar>nums ! i - p\<bar> \<and> (\<bar>nums ! i - p\<bar> = bst \<longrightarrow> b \<le> i)))"
proof (induction m arbitrary: b bd)
  case 0
  then show ?case by simp
next
  case (Suc m)
  obtain b0 bd0 where prev: "fold (\<lambda>i st. scan_step nums c p st i) [0..<m] (0, None) = (b0, bd0)"
    by (cases "fold (\<lambda>i st. scan_step nums c p st i) [0..<m] (0, None)") auto
  have step: "scan_step nums c p (b0, bd0) m = (b, bd)"
    using Suc.prems prev by simp
  note ih = Suc.IH [OF prev]
  show ?case
  proof (cases "is_consecutive nums m c")
    case False
    with step have "b = b0" "bd = bd0" by simp_all
    with ih False show ?thesis
      by (auto split: option.splits simp: less_Suc_eq)
  next
    case True
    show ?thesis
    proof (cases bd0)
      case None
      with step True have "b = m" "bd = Some \<bar>nums ! m - p\<bar>" by (auto simp: Let_def)
      with ih None True show ?thesis by (auto simp: less_Suc_eq)
    next
      case (Some d0)
      show ?thesis
      proof (cases "\<bar>nums ! m - p\<bar> < d0")
        case lt: True
        with step True Some have "b = m" "bd = Some \<bar>nums ! m - p\<bar>" by (auto simp: Let_def)
        with ih Some True lt show ?thesis by (fastforce simp: less_Suc_eq)
      next
        case ge: False
        with step True Some have "b = b0" "bd = bd0" by (auto simp: Let_def)
        with ih Some True ge show ?thesis by (fastforce simp: less_Suc_eq)
      qed
    qed
  qed
qed


lemma consecutive_nth:
  assumes "is_consecutive nums i c" and "k < c"
  shows "nums ! (i + k) = nums ! i + int k"
  using assms(2)
proof (induction k)
  case 0
  then show ?case by simp
next
  case (Suc k)
  then have "k < c - 1" by simp
  with assms(1) have "nums ! (i + k + 1) - nums ! (i + k) = 1"
    by (simp add: is_consecutive_def list_all_iff)
  moreover have "nums ! (i + k) = nums ! i + int k"
    using Suc by simp
  ultimately show ?case by simp
qed

lemma consecutiveI:
  assumes "\<And>k. k < c \<Longrightarrow> nums ! (i + k) = nums ! i + int k"
  shows "is_consecutive nums i c"
  unfolding is_consecutive_def list_all_iff
proof
  fix j assume "j \<in> set [0..<c - 1]"
  then have "j < c" "Suc j < c" by auto
  then have "nums ! (i + j) = nums ! i + int j" "nums ! (i + Suc j) = nums ! i + int (Suc j)"
    using assms by blast+
  then show "nums ! (i + j + 1) - nums ! (i + j) = 1" by simp
qed

lemma window_is_run:
  assumes "is_consecutive nums i c" and "i + c \<le> length nums"
  shows "take c (drop i nums) = [nums ! i..nums ! i + int c - 1]"
proof (rule nth_equalityI)
  show "length (take c (drop i nums)) = length [nums ! i..nums ! i + int c - 1]"
    using assms(2) by simp
next
  fix k assume "k < length (take c (drop i nums))"
  then have k: "k < c" by simp
  then have "take c (drop i nums) ! k = nums ! (i + k)"
    using assms(2) by simp
  also have "\<dots> = nums ! i + int k"
    using assms(1) k by (rule consecutive_nth)
  also have "\<dots> = [nums ! i..nums ! i + int c - 1] ! k"
    using k by simp
  finally show "take c (drop i nums) ! k = [nums ! i..nums ! i + int c - 1] ! k" .
qed

lemma run_mem:
  "contiguous_run nums a count \<Longrightarrow> 0 \<le> k \<Longrightarrow> k < count \<Longrightarrow> a + k \<in> set nums"
  by (auto simp: contiguous_run_def)

lemma strict_nth_mono:
  assumes "sorted_wrt (<) (nums :: int list)" and "i < length nums" and "j < length nums"
  shows "nums ! i < nums ! j \<longleftrightarrow> i < j"
proof
  assume "i < j"
  then show "nums ! i < nums ! j"
    using assms by (simp add: sorted_wrt_nth_less)
next
  assume lt: "nums ! i < nums ! j"
  show "i < j"
  proof (rule ccontr)
    assume "\<not> i < j"
    then have "j = i \<or> j < i" by auto
    then have "nums ! j \<le> nums ! i"
      using assms sorted_wrt_nth_less [of "(<)" nums j i] by auto
    with lt show False by simp
  qed
qed

lemma run_is_window:
  assumes srt: "sorted_wrt (<) (nums :: int list)"
    and run: "contiguous_run nums a (int c)" and c: "0 < c"
  shows "\<exists>i. i + c \<le> length nums \<and> nums ! i = a \<and> is_consecutive nums i c"
proof -
  have "a + 0 \<in> set nums"
    using run c by (intro run_mem [of nums a "int c"]) auto
  then obtain i where i: "i < length nums" "nums ! i = a"
    by (auto simp: in_set_conv_nth)
  have step: "i + k < length nums \<and> nums ! (i + k) = a + int k" if "k < c" for k
    using that
  proof (induction k)
    case 0
    with i show ?case by simp
  next
    case (Suc k)
    then have ih: "i + k < length nums" "nums ! (i + k) = a + int k" by simp_all
    have "a + int (Suc k) \<in> set nums"
      using run Suc.prems by (intro run_mem [of nums a "int c"]) auto
    then obtain j where j: "j < length nums" "nums ! j = a + int (Suc k)"
      by (auto simp: in_set_conv_nth)
    have "nums ! (i + k) < nums ! j" using ih j by simp
    then have lt: "i + k < j"
      using strict_nth_mono [OF srt ih(1) j(1)] by simp
    then have in_range: "i + Suc k < length nums" using j(1) by simp
    have "nums ! (i + k) < nums ! (i + Suc k)"
      using strict_nth_mono [OF srt ih(1) in_range] by simp
    moreover have "nums ! (i + Suc k) \<le> nums ! j"
    proof (cases "i + Suc k = j")
      case True
      then show ?thesis by simp
    next
      case False
      with lt have "i + Suc k < j" by simp
      then show ?thesis
        using strict_nth_mono [OF srt in_range j(1)] by simp
    qed
    ultimately have "nums ! (i + Suc k) = a + int (Suc k)"
      using ih j by simp
    with in_range show ?case by simp
  qed
  have "i + (c - 1) < length nums" using step [of "c - 1"] c by simp
  then have "i + c \<le> length nums" using c by simp
  moreover have "is_consecutive nums i c"
    by (rule consecutiveI) (use step i in simp)
  ultimately show ?thesis using i by blast
qed

lemma window_run:
  assumes "is_consecutive nums i c" and "i + c \<le> length nums" and "0 < c"
  shows "contiguous_run nums (nums ! i) (int c)"
proof -
  have "set [nums ! i..nums ! i + int c - 1] = set (take c (drop i nums))"
    using window_is_run [OF assms(1,2)] by simp
  also have "\<dots> \<subseteq> set nums"
    by (meson set_drop_subset set_take_subset subset_trans)
  finally show ?thesis by (simp add: contiguous_run_def)
qed


lemma scan_blocks_cases:
  assumes "scan_blocks nums c p = (b, bd)"
  shows "case bd of
        None \<Rightarrow> b = 0 \<and> (\<forall>i<length nums - c + 1. \<not> is_consecutive nums i c)
      | Some bst \<Rightarrow>
          b < length nums - c + 1 \<and> is_consecutive nums b c \<and> bst = \<bar>nums ! b - p\<bar> \<and>
          (\<forall>i<length nums - c + 1. is_consecutive nums i c \<longrightarrow>
             bst \<le> \<bar>nums ! i - p\<bar> \<and> (\<bar>nums ! i - p\<bar> = bst \<longrightarrow> b \<le> i))"
  using assms unfolding scan_blocks_def by (rule scan_fold_inv)

lemma scan_blocks_bound:
  assumes "c \<le> length nums"
  shows "fst (scan_blocks nums c p) + c \<le> length nums"
proof -
  obtain b bd where eq: "scan_blocks nums c p = (b, bd)"
    by (cases "scan_blocks nums c p") auto
  from scan_blocks_cases [OF eq] have "b < length nums - c + 1"
    by (cases bd) auto
  with assms eq show ?thesis by simp
qed

lemma available_map_lookup:
  assumes "n \<in> seat_number ` set avail"
  shows "\<exists>s. map_of (rev (map (\<lambda>s. (seat_number s, s)) avail)) n = Some s
            \<and> s \<in> set avail \<and> seat_number s = n"
proof -
  have "n \<in> fst ` set (rev (map (\<lambda>s. (seat_number s, s)) avail))"
    using assms by force
  then obtain s where s: "map_of (rev (map (\<lambda>s. (seat_number s, s)) avail)) n = Some s"
    by (meson map_of_eq_None_iff not_Some_eq)
  then have "(n, s) \<in> set (rev (map (\<lambda>s. (seat_number s, s)) avail))"
    by (rule map_of_SomeD)
  then have "s \<in> set avail \<and> seat_number s = n" by auto
  with s show ?thesis by blast
qed

lemma available_map_distinct:
  assumes "distinct (map seat_number avail)" and "s \<in> set avail"
  shows "map_of (rev (map (\<lambda>s. (seat_number s, s)) avail)) (seat_number s) = Some s"
proof -
  have "distinct (map fst (rev (map (\<lambda>s. (seat_number s, s)) avail)))"
    using assms(1) by (simp add: rev_map [symmetric] comp_def)
  moreover have "(seat_number s, s) \<in> set (rev (map (\<lambda>s. (seat_number s, s)) avail))"
    using assms(2) by auto
  ultimately show ?thesis by simp
qed

lemma selected_numbers_subset:
  "set (take c (drop b (sort (remdups (map seat_number avail))))) \<subseteq> seat_number ` set avail"
proof -
  have "set (take c (drop b (sort (remdups (map seat_number avail)))))
          \<subseteq> set (sort (remdups (map seat_number avail)))"
    by (meson set_drop_subset set_take_subset subset_trans)
  then show ?thesis by simp
qed

lemma select_centered_subset: "set (select_centered_seats avail c p) \<subseteq> set avail"
proof (cases "avail = [] \<or> c \<le> 0")
  case True
  then show ?thesis by (auto simp: select_centered_seats_def)
next
  case False
  show ?thesis
  proof (cases "c \<ge> int (length (sort (remdups (map seat_number avail))))")
    case True
    with False show ?thesis
      by (auto simp: select_centered_seats_def Let_def dest: in_set_takeD)
  next
    case lt: False
    have "the (map_of (rev (map (\<lambda>s. (seat_number s, s)) avail)) n) \<in> set avail"
      if "n \<in> set (take (nat c) (drop b (sort (remdups (map seat_number avail)))))" for n b
    proof -
      have "n \<in> seat_number ` set avail"
        using that selected_numbers_subset by blast
      from available_map_lookup [OF this] show ?thesis by auto
    qed
    with False lt show ?thesis
      by (auto simp: select_centered_seats_def Let_def)
  qed
qed

lemma select_centered_distinct:
  assumes "distinct avail"
  shows "distinct (select_centered_seats avail c p)"
proof (cases "avail = [] \<or> c \<le> 0")
  case True
  then show ?thesis by (auto simp: select_centered_seats_def)
next
  case False
  show ?thesis
  proof (cases "c \<ge> int (length (sort (remdups (map seat_number avail))))")
    case True
    with False assms show ?thesis
      by (auto simp: select_centered_seats_def Let_def)
  next
    case lt: False
    define nums where "nums = sort (remdups (map seat_number avail))"
    define b where "b = fst (scan_blocks nums (nat c) p)"
    define f where "f = (\<lambda>n. the (map_of (rev (map (\<lambda>s. (seat_number s, s)) avail)) n))"
    have res: "select_centered_seats avail c p = map f (take (nat c) (drop b nums))"
      using False lt by (simp add: select_centered_seats_def Let_def nums_def b_def f_def)
    have "distinct nums" by (simp add: nums_def)
    then have d: "distinct (take (nat c) (drop b nums))" by simp
    have "seat_number (f n) = n" if "n \<in> set (take (nat c) (drop b nums))" for n
    proof -
      have "n \<in> seat_number ` set avail"
        using that selected_numbers_subset unfolding nums_def by blast
      from available_map_lookup [OF this] show ?thesis by (auto simp: f_def)
    qed
    then have "inj_on f (set (take (nat c) (drop b nums)))"
      by (metis inj_onI)
    with d show ?thesis by (simp add: res distinct_map)
  qed
qed

lemma select_centered_length:
  assumes "0 \<le> c" and "c \<le> int (length avail)"
  shows "length (select_centered_seats avail c p) = nat c"
proof (cases "avail = [] \<or> c \<le> 0")
  case True
  with assms show ?thesis by (auto simp: select_centered_seats_def)
next
  case False
  show ?thesis
  proof (cases "c \<ge> int (length (sort (remdups (map seat_number avail))))")
    case True
    with False assms show ?thesis
      by (auto simp: select_centered_seats_def Let_def)
  next
    case lt: False
    define nums where "nums = sort (remdups (map seat_number avail))"
    have "nat c \<le> length nums" using lt by (simp add: nums_def)
    from scan_blocks_bound [OF this, of p]
    have "length (take (nat c) (drop (fst (scan_blocks nums (nat c) p)) nums)) = nat c"
      by simp
    with False lt show ?thesis
      by (simp add: select_centered_seats_def Let_def nums_def)
  qed
qed


lemma select_centered_strict:
  assumes srt: "sorted_wrt (<) (map seat_number avail)"
    and c: "0 < count" "count < int (length avail)"
  shows "select_centered_seats avail count p
           = take (nat count)
               (drop (fst (scan_blocks (map seat_number avail) (nat count) p)) avail)"
proof -
  define nums where "nums = map seat_number avail"
  define b where "b = fst (scan_blocks nums (nat count) p)"
  define f where "f = (\<lambda>n. the (map_of (rev (map (\<lambda>s. (seat_number s, s)) avail)) n))"
  have sd: "sorted nums" "distinct nums"
    using srt by (simp_all add: nums_def strict_sorted_iff)
  then have nums: "sort (remdups (map seat_number avail)) = nums"
    by (simp add: nums_def sorted_sort_id)
  have ne: "\<not> (avail = [] \<or> count \<le> 0)" using c by auto
  have lt: "\<not> count \<ge> int (length nums)" using c by (simp add: nums_def)
  have "select_centered_seats avail count p = map f (take (nat count) (drop b nums))"
    unfolding select_centered_seats_def Let_def nums if_not_P [OF ne] if_not_P [OF lt]
    by (simp add: f_def b_def)
  also have "\<dots> = map (f \<circ> seat_number) (take (nat count) (drop b avail))"
    by (simp add: nums_def take_map drop_map)
  also have "\<dots> = map id (take (nat count) (drop b avail))"
  proof (rule map_cong [OF refl])
    fix s assume "s \<in> set (take (nat count) (drop b avail))"
    then have "s \<in> set avail"
      by (meson in_set_dropD in_set_takeD)
    then show "(f \<circ> seat_number) s = id s"
      using available_map_distinct [of avail s] sd(2) by (simp add: f_def nums_def)
  qed
  finally show ?thesis by (simp add: b_def nums_def)
qed

text \<open>
  Claim C1. For an ascending list of available seats of one row, every preferred start
  and every count with 0 < count < number of available seats: when some contiguous
  run of count seat numbers exists, the selector returns such a run, its start has
  the least absolute difference to the preferred start among all runs, and among
  the runs at that distance it is the lowest; when none exists, it returns the first
  count available seats. The seats returned are seats of the list. With seats
  1, 3, 5, 7, 9 free and count 2 the result is seats 1 and 3.
\<close>

theorem C1_centered_block:
  assumes srt: "sorted_wrt (<) (map seat_number avail)"
    and c: "0 < count" "count < int (length avail)"
  shows "(if \<exists>a. contiguous_run (map seat_number avail) a count
          then \<exists>a. contiguous_run (map seat_number avail) a count
                 \<and> map seat_number (select_centered_seats avail count p) = [a..a + count - 1]
                 \<and> (\<forall>b. contiguous_run (map seat_number avail) b count \<longrightarrow>
                        \<bar>a - p\<bar> \<le> \<bar>b - p\<bar> \<and> (\<bar>b - p\<bar> = \<bar>a - p\<bar> \<longrightarrow> a \<le> b))
          else select_centered_seats avail count p = take (nat count) avail)
       \<and> set (select_centered_seats avail count p) \<subseteq> set avail"
proof -
  define nums where "nums = map seat_number avail"
  define k where "k = nat count"
  have k: "0 < k" "k < length nums" "int k = count"
    using c by (simp_all add: k_def nums_def)
  have srt': "sorted_wrt (<) nums" using srt by (simp add: nums_def)
  obtain b bd where eq: "scan_blocks nums k p = (b, bd)"
    by (cases "scan_blocks nums k p") auto
  have res: "select_centered_seats avail count p = take k (drop b avail)"
    using select_centered_strict [OF srt c, of p] eq by (simp add: nums_def k_def)
  note inv = scan_blocks_cases [OF eq]
  have window: "\<exists>i. i < length nums - k + 1 \<and> nums ! i = a \<and> is_consecutive nums i k"
    if "contiguous_run nums a count" for a
  proof -
    from that k have "contiguous_run nums a (int k)" by simp
    from run_is_window [OF srt' this k(1)]
    obtain i where "i + k \<le> length nums" "nums ! i = a" "is_consecutive nums i k" by blast
    then show ?thesis by (intro exI [of _ i]) auto
  qed
  have main: "if \<exists>a. contiguous_run nums a count
          then \<exists>a. contiguous_run nums a count
                 \<and> map seat_number (select_centered_seats avail count p) = [a..a + count - 1]
                 \<and> (\<forall>b. contiguous_run nums b count \<longrightarrow>
                        \<bar>a - p\<bar> \<le> \<bar>b - p\<bar> \<and> (\<bar>b - p\<bar> = \<bar>a - p\<bar> \<longrightarrow> a \<le> b))
          else select_centered_seats avail count p = take (nat count) avail"
  proof (cases bd)
    case None
    with inv have b0: "b = 0" and none: "\<forall>i<length nums - k + 1. \<not> is_consecutive nums i k"
      by simp_all
    have "\<not> (\<exists>a. contiguous_run nums a count)"
      using window none by blast
    with res b0 show ?thesis by (simp add: k_def)
  next
    case (Some bst)
    note all = inv [unfolded Some option.case]
    from all have b: "b < length nums - k + 1" "is_consecutive nums b k"
      and bst: "bst = \<bar>nums ! b - p\<bar>"
      and best: "\<forall>i<length nums - k + 1. is_consecutive nums i k \<longrightarrow>
             bst \<le> \<bar>nums ! i - p\<bar> \<and> (\<bar>nums ! i - p\<bar> = bst \<longrightarrow> b \<le> i)"
      by blast+
    have bk: "b + k \<le> length nums" using b(1) k by simp
    have run: "contiguous_run nums (nums ! b) count"
      using window_run [OF b(2) bk k(1)] k by simp
    have "map seat_number (select_centered_seats avail count p) = take k (drop b nums)"
      by (simp add: res nums_def take_map drop_map)
    also have "\<dots> = [nums ! b..nums ! b + count - 1]"
      using window_is_run [OF b(2) bk] k by simp
    finally have numbers:
      "map seat_number (select_centered_seats avail count p) = [nums ! b..nums ! b + count - 1]" .
    have least: "\<bar>nums ! b - p\<bar> \<le> \<bar>a - p\<bar> \<and> (\<bar>a - p\<bar> = \<bar>nums ! b - p\<bar> \<longrightarrow> nums ! b \<le> a)"
      if "contiguous_run nums a count" for a
    proof -
      from window [OF that] obtain i where
        i: "i < length nums - k + 1" "nums ! i = a" "is_consecutive nums i k" by blast
      with best bst have le: "\<bar>nums ! b - p\<bar> \<le> \<bar>a - p\<bar>"
        and tie: "\<bar>a - p\<bar> = \<bar>nums ! b - p\<bar> \<longrightarrow> b \<le> i" by auto
      have "nums ! b \<le> nums ! i" if "b \<le> i"
      proof (cases "b = i")
        case True
        then show ?thesis by simp
      next
        case False
        with that have "b < i" by simp
        moreover have "i < length nums" using i(1) k by simp
        ultimately show ?thesis
          using sorted_wrt_nth_less [OF srt', of b i] by simp
      qed
      with le tie i(2) show ?thesis by auto
    qed
    from run numbers least show ?thesis by auto
  qed
  have sub: "set (select_centered_seats avail count p) \<subseteq> set avail"
    by (rule select_centered_subset)
  show ?thesis
    using main sub unfolding nums_def by (rule conjI)
qed


lemma seat_number_free_seats: "map seat_number (free_seats r ns) = ns"
  by (simp add: free_seats_def comp_def)

theorem C1_centered_block_witness:
  "select_centered_seats (free_seats (CHR ''A'') [1, 3, 5, 7, 9]) 2 5
     = free_seats (CHR ''A'') [1, 3]
   \<and> map seat_number
       (select_centered_seats (free_seats (CHR ''A'') [1, 2, 3, 4, 5, 6, 7, 8, 9, 10]) 2 5)
     = [5, 6]"
proof
  have no_run: "\<not> (\<exists>a. contiguous_run [1, 3, 5, 7, 9] a 2)"
  proof
    assume "\<exists>a. contiguous_run [1, 3, 5, 7, 9] a 2"
    then obtain a where run: "contiguous_run [1, 3, 5, 7, 9] a 2" ..
    have "a + 0 \<in> set [1, 3, 5, 7, 9]"
      using run by (rule run_mem) simp_all
    moreover have "a + 1 \<in> set [1, 3, 5, 7, 9]"
      using run by (rule run_mem) simp_all
    ultimately show False by auto
  qed
  have "select_centered_seats (free_seats (CHR ''A'') [1, 3, 5, 7, 9]) 2 5
          = take (nat 2) (free_seats (CHR ''A'') [1, 3, 5, 7, 9])"
    using C1_centered_block [of "free_seats (CHR ''A'') [1, 3, 5, 7, 9]" 2 5] no_run
    by (simp add: seat_number_free_seats) (simp add: free_seats_def)
  then show "select_centered_seats (free_seats (CHR ''A'') [1, 3, 5, 7, 9]) 2 5
          = free_seats (CHR ''A'') [1, 3]"
    by (simp add: free_seats_def)
next
  let ?row = "[1, 2, 3, 4, 5, 6, 7, 8, 9, 10] :: int list"
  have run5: "contiguous_run ?row 5 2"
    by (simp add: contiguous_run_def)
  then have ex: "\<exists>a. contiguous_run ?row a 2" ..
  have "\<exists>a. contiguous_run ?row a 2
          \<and> map seat_number (select_centered_seats (free_seats (CHR ''A'') ?row) 2 5) = [a..a + 2 - 1]
          \<and> (\<forall>b. contiguous_run ?row b 2 \<longrightarrow>
                 \<bar>a - 5\<bar> \<le> \<bar>b - 5\<bar> \<and> (\<bar>b - 5\<bar> = \<bar>a - 5\<bar> \<longrightarrow> a \<le> b))"
    using C1_centered_block [of "free_seats (CHR ''A'') ?row" 2 5] ex
    by (simp add: seat_number_free_seats) (simp add: free_seats_def)
  then obtain a where
    nums: "map seat_number (select_centered_seats (free_seats (CHR ''A'') ?row) 2 5) = [a..a + 2 - 1]"
    and least: "\<forall>b. contiguous_run ?row b 2 \<longrightarrow> \<bar>a - 5\<bar> \<le> \<bar>b - 5\<bar>"
    by blast
  from least run5 have "a = 5" by fastforce
  with nums show "map seat_number
       (select_centered_seats (free_seats (CHR ''A'') ?row) 2 5) = [5, 6]"
    by (simp add: upto.simps)
qed

section \<open>The position parser accepts exactly one letter and digits\<close>








section \<open>The order of the orchestrator's checks\<close>






section \<open>What the two allocators select\<close>

lemma available_row_set:
  "s \<in> set (get_available_seats_in_row d mid r) \<longleftrightarrow>
     s \<in> set (seat_table d) \<and> movie_id s = mid \<and> row_letter s = r \<and> \<not> is_booked s"
  by (auto simp: get_available_seats_in_row_def)

lemma available_row_sorted: "sorted (map seat_number (get_available_seats_in_row d mid r))"
  by (simp add: get_available_seats_in_row_def)

lemma available_row_distinct:
  "distinct (seat_table d) \<Longrightarrow> distinct (get_available_seats_in_row d mid r)"
  by (simp add: get_available_seats_in_row_def)

lemma selected_from_row:
  "s \<in> set (select_centered_seats (get_available_seats_in_row d mid r) c p) \<Longrightarrow>
     s \<in> set (seat_table d) \<and> movie_id s = mid \<and> row_letter s = r \<and> \<not> is_booked s"
  using select_centered_subset [of "get_available_seats_in_row d mid r" c p]
  by (auto simp: available_row_set)

lemma default_loop_acc:
  "default_loop d mid spr rs remaining sel = sel @ default_loop d mid spr rs remaining []"
proof (induction rs arbitrary: remaining sel)
  case Nil
  then show ?case by simp
next
  case (Cons r rs)
  show ?case
  proof (cases "remaining \<le> 0 \<or> get_available_seats_in_row d mid r = []")
    case True
    then show ?thesis using Cons.IH [of remaining sel] by auto
  next
    case False
    define chosen where "chosen = select_centered_seats (get_available_seats_in_row d mid r)
        (min remaining (int (length (get_available_seats_in_row d mid r))))
        (get_middle_start_column spr
           (min remaining (int (length (get_available_seats_in_row d mid r)))))"
    have "default_loop d mid spr (r # rs) remaining sel
            = default_loop d mid spr rs (remaining - int (length chosen)) (sel @ chosen)"
      using False by (simp add: Let_def chosen_def)
    also have "\<dots> = (sel @ chosen) @ default_loop d mid spr rs (remaining - int (length chosen)) []"
      by (rule Cons.IH)
    also have "\<dots> = sel @ default_loop d mid spr rs (remaining - int (length chosen)) chosen"
      using Cons.IH [of "remaining - int (length chosen)" chosen] by simp
    also have "default_loop d mid spr rs (remaining - int (length chosen)) chosen
            = default_loop d mid spr (r # rs) remaining []"
      using False by (simp add: Let_def chosen_def)
    finally show ?thesis .
  qed
qed

lemma position_loop_acc:
  "position_loop d mid spr sc rs first remaining sel
     = sel @ position_loop d mid spr sc rs first remaining []"
proof (induction rs arbitrary: first remaining sel)
  case Nil
  then show ?case by simp
next
  case (Cons r rs)
  show ?case
  proof (cases "remaining \<le> 0 \<or> get_available_seats_in_row d mid r = []")
    case True
    then show ?thesis using Cons.IH [of first remaining sel] by auto
  next
    case False
    obtain rem' chosen where step:
      "\<And>acc. position_loop d mid spr sc (r # rs) first remaining acc
          = position_loop d mid spr sc rs False rem' (acc @ chosen)"
      using False by (cases first) (simp_all add: Let_def)
    have "position_loop d mid spr sc (r # rs) first remaining sel
            = (sel @ chosen) @ position_loop d mid spr sc rs False rem' []"
      unfolding step by (rule Cons.IH)
    also have "\<dots> = sel @ position_loop d mid spr sc rs False rem' ([] @ chosen)"
      using Cons.IH [of False rem' chosen] by simp
    finally show ?thesis unfolding step [symmetric] .
  qed
qed


lemma default_loop_Cons:
  "default_loop d mid spr (r # rs) remaining [] =
     (if remaining \<le> 0 then []
      else if get_available_seats_in_row d mid r = [] then default_loop d mid spr rs remaining []
      else
        let available = get_available_seats_in_row d mid r;
            to_take = min remaining (int (length available));
            chosen = select_centered_seats available to_take (get_middle_start_column spr to_take)
        in chosen @ default_loop d mid spr rs (remaining - int (length chosen)) [])"
  using default_loop_acc [of d mid spr rs _ "select_centered_seats _ _ _"]
  by (simp add: Let_def)

lemma position_loop_Cons:
  "position_loop d mid spr sc (r # rs) first remaining [] =
     (if remaining \<le> 0 then []
      else if get_available_seats_in_row d mid r = []
      then position_loop d mid spr sc rs first remaining []
      else if first then
        let seats_to_right =
              sort_key seat_number
                (filter (\<lambda>s. seat_number s \<ge> sc) (get_available_seats_in_row d mid r));
            to_take = min remaining (int (length seats_to_right))
        in take (nat to_take) seats_to_right
             @ position_loop d mid spr sc rs False (remaining - to_take) []
      else
        let available = get_available_seats_in_row d mid r;
            to_take = min remaining (int (length available));
            chosen = select_centered_seats available to_take (get_middle_start_column spr to_take)
        in chosen @ position_loop d mid spr sc rs False (remaining - int (length chosen)) [])"
  using position_loop_acc [of d mid spr sc rs False _ "select_centered_seats _ _ _"]
    position_loop_acc [of d mid spr sc rs False _ "take _ _"]
  by (simp add: Let_def)

lemma default_loop_members:
  "s \<in> set (default_loop d mid spr rs remaining []) \<Longrightarrow>
     s \<in> set (seat_table d) \<and> movie_id s = mid \<and> row_letter s \<in> set rs \<and> \<not> is_booked s"
proof (induction rs arbitrary: remaining)
  case Nil
  then show ?case by simp
next
  case (Cons r rs)
  from Cons.prems show ?case
    unfolding default_loop_Cons Let_def
    by (auto split: if_splits dest: Cons.IH selected_from_row)
qed

lemma right_seats_members:
  "s \<in> set (take k (sort_key seat_number
      (filter (\<lambda>s. seat_number s \<ge> sc) (get_available_seats_in_row d mid r)))) \<Longrightarrow>
     s \<in> set (seat_table d) \<and> movie_id s = mid \<and> row_letter s = r \<and> \<not> is_booked s
       \<and> sc \<le> seat_number s"
  by (auto dest!: in_set_takeD simp: available_row_set)

lemma position_loop_members:
  "s \<in> set (position_loop d mid spr sc rs first remaining []) \<Longrightarrow>
     s \<in> set (seat_table d) \<and> movie_id s = mid \<and> row_letter s \<in> set rs \<and> \<not> is_booked s"
proof (induction rs arbitrary: first remaining)
  case Nil
  then show ?case by simp
next
  case (Cons r rs)
  from Cons.prems show ?case
    unfolding position_loop_Cons Let_def
    by (auto split: if_splits dest: Cons.IH selected_from_row right_seats_members)
qed

lemma default_loop_distinct:
  assumes "distinct (seat_table d)" and "distinct rs"
  shows "distinct (default_loop d mid spr rs remaining [])"
  using assms(2)
proof (induction rs arbitrary: remaining)
  case Nil
  then show ?case by simp
next
  case (Cons r rs)
  then have r: "r \<notin> set rs" and ih: "\<And>k. distinct (default_loop d mid spr rs k [])"
    by simp_all
  have ch: "distinct (select_centered_seats (get_available_seats_in_row d mid r) c p)" for c p
    by (intro select_centered_distinct available_row_distinct assms(1))
  show ?case
    unfolding default_loop_Cons Let_def
    using r ih ch by (auto dest: default_loop_members selected_from_row)
qed

lemma position_loop_distinct:
  assumes "distinct (seat_table d)" and "distinct rs"
  shows "distinct (position_loop d mid spr sc rs first remaining [])"
  using assms(2)
proof (induction rs arbitrary: first remaining)
  case Nil
  then show ?case by simp
next
  case (Cons r rs)
  then have r: "r \<notin> set rs"
    and ih: "\<And>f k. distinct (position_loop d mid spr sc rs f k [])"
    by simp_all
  have ch: "distinct (select_centered_seats (get_available_seats_in_row d mid r) c p)" for c p
    by (intro select_centered_distinct available_row_distinct assms(1))
  have rt: "distinct (take k (sort_key seat_number
      (filter (\<lambda>s. seat_number s \<ge> sc) (get_available_seats_in_row d mid r))))" for k
    using available_row_distinct [OF assms(1), of mid r] by simp
  show ?case
    unfolding position_loop_Cons Let_def
    using r ih ch rt
    by (auto dest: position_loop_members selected_from_row right_seats_members)
qed


lemma row_letters_distinct: "distinct (row_letters_of m)"
proof -
  have "distinct ascii_uppercase" by (simp add: ascii_uppercase_def)
  then show ?thesis by (simp add: row_letters_of_def py_prefix_def)
qed

lemma drop_index_of:
  "x \<in> set xs \<Longrightarrow> distinct xs \<Longrightarrow>
     \<exists>rest. drop (index_of xs x) xs = x # rest \<and> x \<notin> set rest \<and> distinct rest"
  by (induction xs) auto

lemma get_default_seats_sound:
  assumes "distinct (seat_table d)"
  shows "distinct (get_default_seats d mid n)
       \<and> (\<forall>s\<in>set (get_default_seats d mid n).
            s \<in> set (seat_table d) \<and> movie_id s = mid \<and> \<not> is_booked s)"
proof (cases "query_movie d mid")
  case None
  then show ?thesis by (simp add: get_default_seats_def)
next
  case (Some m)
  then have eq: "get_default_seats d mid n
      = default_loop d mid (seats_per_row m) (row_letters_of m) n []"
    by (simp add: get_default_seats_def get_row_letters_for_movie_def)
  show ?thesis
    unfolding eq
    using default_loop_distinct [OF assms row_letters_distinct] default_loop_members
    by blast
qed

lemma get_seats_from_position_sound:
  assumes "distinct (seat_table d)"
  shows "distinct (get_seats_from_position d mid r c n)
       \<and> (\<forall>s\<in>set (get_seats_from_position d mid r c n).
            s \<in> set (seat_table d) \<and> movie_id s = mid \<and> \<not> is_booked s)"
proof (cases "query_movie d mid")
  case None
  then show ?thesis by (simp add: get_seats_from_position_def)
next
  case (Some m)
  show ?thesis
  proof (cases "r \<in> set (row_letters_of m)")
    case False
    with Some show ?thesis by (simp add: get_seats_from_position_def)
  next
    case True
    with Some have eq: "get_seats_from_position d mid r c n
        = position_loop d mid (seats_per_row m) c
            (drop (index_of (row_letters_of m) r) (row_letters_of m)) True n []"
      by (simp add: get_seats_from_position_def Let_def)
    have "distinct (drop (index_of (row_letters_of m) r) (row_letters_of m))"
      using row_letters_distinct by simp
    from position_loop_distinct [OF assms this] show ?thesis
      unfolding eq using position_loop_members by blast
  qed
qed

lemma allocate_success_seats:
  assumes "allocate_seats d mid n sp = Inr res" and "success res"
  shows "seats res = get_default_seats d mid n
       \<or> (\<exists>r c. seats res = get_seats_from_position d mid r c n)"
  using assms
  by (auto simp: allocate_seats_def check_length_def failure_def Let_def
      split: option.splits if_splits prod.splits) blast+

text \<open>
  Claim C9. In every snapshot (the seat keys are distinct, as a primary key is) and
  for every call of allocate that returns success, default or positional, the
  returned list holds no seat twice, and every returned seat is a seat of the
  snapshot, of the requested movie, and unbooked.
\<close>

theorem C9_allocated_seats_sound:
  assumes "distinct (map seat_pk (seat_table d))"
    and "allocate_seats d mid n sp = Inr res" and "success res"
  shows "distinct (seats res) \<and> distinct (map seat_pk (seats res))
       \<and> (\<forall>s\<in>set (seats res).
            s \<in> set (seat_table d) \<and> movie_id s = mid \<and> \<not> is_booked s)"
proof -
  have dt: "distinct (seat_table d)"
    using assms(1) by (simp add: distinct_map)
  have main: "distinct (seats res)
       \<and> (\<forall>s\<in>set (seats res).
            s \<in> set (seat_table d) \<and> movie_id s = mid \<and> \<not> is_booked s)"
    using allocate_success_seats [OF assms(2,3)]
      get_default_seats_sound [OF dt, of mid n] get_seats_from_position_sound [OF dt, of mid _ _ n]
    by auto
  then have "set (seats res) \<subseteq> set (seat_table d)" by blast
  moreover have "inj_on seat_pk (set (seat_table d))"
    using assms(1) by (simp add: distinct_map)
  ultimately have "inj_on seat_pk (set (seats res))"
    by (rule inj_on_subset [rotated])
  with main show ?thesis by (simp add: distinct_map)
qed

theorem C9_allocated_seats_sound_witness:
  "\<exists>res. allocate_seats (mark_booked (new_venue 2 3) 1 [2]) 1 3 (Some ''A1'') = Inr res
      \<and> success res \<and> map seat_pk (seats res) = [1, 3, 5]
      \<and> distinct (seats res) \<and> distinct (map seat_pk (seats res))
      \<and> list_all (\<lambda>s. s \<in> set (seat_table (mark_booked (new_venue 2 3) 1 [2]))
                      \<and> movie_id s = 1 \<and> \<not> is_booked s) (seats res)"
proof -
  let ?d = "mark_booked (new_venue 2 3) 1 [2]"
  let ?res = "\<lparr>success = True,
       seats = filter (\<lambda>s. seat_pk s \<in> {1, 3, 5}) (seat_table ?d), error = None\<rparr>"
  have d: "distinct (map seat_pk (seat_table ?d))" by code_simp
  have e: "allocate_seats ?d 1 3 (Some ''A1'') = Inr ?res" by code_simp
  have s: "success ?res" by simp
  have p: "map seat_pk (seats ?res) = [1, 3, 5]" by code_simp
  note sound = C9_allocated_seats_sound [OF d e s]
  show ?thesis
    by (rule exI [of _ ?res]) (use sound e p in \<open>simp add: list_all_iff\<close>)
qed

section \<open>The starting row is filled rightward only\<close>

lemma filter_none: "(\<And>x. x \<in> set xs \<Longrightarrow> \<not> P x) \<Longrightarrow> filter P xs = []"
  by (induction xs) auto

lemma filter_all: "(\<And>x. x \<in> set xs \<Longrightarrow> P x) \<Longrightarrow> filter P xs = xs"
  by (induction xs) auto

lemma later_rows_filtered:
  assumes "r \<notin> set rs"
  shows "filter (\<lambda>s. row_letter s = r) (position_loop d mid spr sc rs first k []) = []"
  by (rule filter_none) (use assms position_loop_members in blast)

lemma right_seats_sorted:
  "sort_key seat_number (filter P (get_available_seats_in_row d mid r))
     = filter P (get_available_seats_in_row d mid r)"
  by (intro sort_key_id_if_sorted sorted_filter available_row_sorted)

lemma start_row_part:
  assumes "r \<notin> set rs"
  shows "filter (\<lambda>s. row_letter s = r) (position_loop d mid spr sc (r # rs) True n [])
           = take (nat n) (filter (\<lambda>s. sc \<le> seat_number s) (get_available_seats_in_row d mid r))"
proof (cases "n \<le> 0")
  case True
  then show ?thesis by simp
next
  case pos: False
  show ?thesis
  proof (cases "get_available_seats_in_row d mid r = []")
    case True
    with pos later_rows_filtered [OF assms] show ?thesis
      by (simp add: position_loop_Cons)
  next
    case False
    define right where
      "right = filter (\<lambda>s. sc \<le> seat_number s) (get_available_seats_in_row d mid r)"
    have take_eq: "take (nat (min n (int (length right)))) right = take (nat n) right"
      by (cases "n \<le> int (length right)") (simp_all add: min_def)
    have "row_letter s = r" if "s \<in> set (take (nat n) right)" for s
      using that by (auto dest!: in_set_takeD simp: right_def available_row_set)
    then have "filter (\<lambda>s. row_letter s = r) (take (nat n) right) = take (nat n) right"
      by (intro filter_all)
    moreover have "sort_key seat_number right = right"
      unfolding right_def by (rule right_seats_sorted)
    ultimately show ?thesis
      using pos False later_rows_filtered [OF assms] take_eq
      unfolding position_loop_Cons Let_def right_def [symmetric]
      by simp
  qed
qed

text \<open>
  Claim C7. For a starting row of the movie, the seats that positional allocation
  takes from the starting row are the available seats of that row with seat number
  at least the start column, in ascending order, up to the requested count; so no
  seat of the starting row left of the start column is ever taken, free or not.
\<close>

theorem C7_rightward_only:
  assumes "query_movie d mid = Some m" and "start_row \<in> set (row_letters_of m)"
  shows "filter (\<lambda>s. row_letter s = start_row)
           (get_seats_from_position d mid start_row start_col n)
         = take (nat n) (filter (\<lambda>s. start_col \<le> seat_number s)
             (get_available_seats_in_row d mid start_row))
       \<and> (\<forall>s\<in>set (get_seats_from_position d mid start_row start_col n).
            row_letter s = start_row \<longrightarrow> start_col \<le> seat_number s)
       \<and> sorted (map seat_number (filter (\<lambda>s. row_letter s = start_row)
           (get_seats_from_position d mid start_row start_col n)))"
proof -
  obtain rest where rest:
    "drop (index_of (row_letters_of m) start_row) (row_letters_of m) = start_row # rest"
    "start_row \<notin> set rest"
    using drop_index_of [OF assms(2) row_letters_distinct] by blast
  have eq: "get_seats_from_position d mid start_row start_col n
      = position_loop d mid (seats_per_row m) start_col (start_row # rest) True n []"
    using assms rest(1) by (simp add: get_seats_from_position_def Let_def)
  have part: "filter (\<lambda>s. row_letter s = start_row)
           (get_seats_from_position d mid start_row start_col n)
         = take (nat n) (filter (\<lambda>s. start_col \<le> seat_number s)
             (get_available_seats_in_row d mid start_row))"
    unfolding eq by (rule start_row_part [OF rest(2)])
  have right: "start_col \<le> seat_number s"
    if "s \<in> set (get_seats_from_position d mid start_row start_col n)"
      and "row_letter s = start_row" for s
  proof -
    from that have "s \<in> set (filter (\<lambda>s. row_letter s = start_row)
           (get_seats_from_position d mid start_row start_col n))" by simp
    then show ?thesis unfolding part by (auto dest!: in_set_takeD)
  qed
  have "sorted (map seat_number (filter (\<lambda>s. start_col \<le> seat_number s)
             (get_available_seats_in_row d mid start_row)))"
    by (intro sorted_filter available_row_sorted)
  then have "sorted (take (nat n) (map seat_number (filter (\<lambda>s. start_col \<le> seat_number s)
             (get_available_seats_in_row d mid start_row))))"
    by (rule sorted_wrt_take)
  then have srt: "sorted (map seat_number (filter (\<lambda>s. row_letter s = start_row)
           (get_seats_from_position d mid start_row start_col n)))"
    unfolding part by (simp add: take_map)
  from part right srt show ?thesis by blast
qed


theorem C7_rightward_only_witness:
  "map (\<lambda>s. (row_letter s, seat_number s))
       (get_seats_from_position (new_venue 2 5) 1 (CHR ''A'') 3 4)
     = [(CHR ''A'', 3), (CHR ''A'', 4), (CHR ''A'', 5), (CHR ''B'', 3)]
   \<and> map seat_number (get_available_seats_in_row (new_venue 2 5) 1 (CHR ''A'')) = [1, 2, 3, 4, 5]
   \<and> filter (\<lambda>s. row_letter s = CHR ''A'')
         (get_seats_from_position (new_venue 2 5) 1 (CHR ''A'') 3 4)
     = take (nat 4) (filter (\<lambda>s. 3 \<le> seat_number s)
         (get_available_seats_in_row (new_venue 2 5) 1 (CHR ''A'')))"
proof -
  let ?m = "\<lparr>movie_pk = 1, rows = 2, seats_per_row = 5\<rparr>"
  have m: "query_movie (new_venue 2 5) 1 = Some ?m" by code_simp
  have r: "CHR ''A'' \<in> set (row_letters_of ?m)" by code_simp
  have res: "map (\<lambda>s. (row_letter s, seat_number s))
       (get_seats_from_position (new_venue 2 5) 1 (CHR ''A'') 3 4)
     = [(CHR ''A'', 3), (CHR ''A'', 4), (CHR ''A'', 5), (CHR ''B'', 3)]"
    by code_simp
  have av: "map seat_number (get_available_seats_in_row (new_venue 2 5) 1 (CHR ''A''))
      = [1, 2, 3, 4, 5]"
    by code_simp
  from C7_rightward_only [OF m r, of 3 4] res av show ?thesis by blast
qed

section \<open>Default allocation in a venue with no bookings\<close>

lemma fresh_row:
  assumes "fresh_venue d m" and "r \<in> set (row_letters_of m)"
  shows "map seat_number (get_available_seats_in_row d (movie_pk m) r) = [1..seats_per_row m]"
proof -
  have "filter (\<lambda>s. movie_id s = movie_pk m \<and> row_letter s = r \<and> \<not> is_booked s) (seat_table d)
      = filter (\<lambda>s. movie_id s = movie_pk m \<and> row_letter s = r) (seat_table d)"
    using assms(1) by (intro filter_cong refl) (auto simp: fresh_venue_def list_all_iff)
  then show ?thesis
    using assms by (simp add: get_available_seats_in_row_def fresh_venue_def list_all_iff)
qed

lemma default_loop_length:
  assumes "\<And>r. r \<in> set rs \<Longrightarrow>
      map seat_number (get_available_seats_in_row d mid r) = [1..spr]"
    and "0 \<le> spr" and "0 \<le> remaining"
  shows "int (length (default_loop d mid spr rs remaining []))
           = min remaining (int (length rs) * spr)"
  using assms(1,3)
proof (induction rs arbitrary: remaining)
  case Nil
  then show ?case by simp
next
  case (Cons r rs)
  define available where "available = get_available_seats_in_row d mid r"
  have "length (map seat_number available) = length [1..spr]"
    using Cons.prems(1) [of r] by (simp add: available_def)
  then have len: "int (length available) = spr"
    using assms(2) by simp
  have prod: "int (length (r # rs)) * spr = int (length rs) * spr + spr"
    by (simp add: algebra_simps)
  have nonneg: "0 \<le> int (length rs) * spr"
    using assms(2) by simp
  have ih: "int (length (default_loop d mid spr rs k [])) = min k (int (length rs) * spr)"
    if "0 \<le> k" for k
    using Cons.IH [of k] Cons.prems(1) that by simp
  show ?case
  proof (cases "remaining \<le> 0")
    case True
    with Cons.prems(2) nonneg assms(2) show ?thesis
      by (simp add: default_loop_Cons prod)
  next
    case pos: False
    show ?thesis
    proof (cases "available = []")
      case True
      with len have "spr = 0" by simp
      with True pos ih [of remaining] show ?thesis
        by (simp add: default_loop_Cons available_def)
    next
      case False
      define to_take where "to_take = min remaining (int (length available))"
      define chosen where
        "chosen = select_centered_seats available to_take (get_middle_start_column spr to_take)"
      have tt: "0 \<le> to_take" "to_take \<le> int (length available)"
        using pos by (simp_all add: to_take_def)
      have ch: "int (length chosen) = to_take"
        unfolding chosen_def using select_centered_length [OF tt] tt(1) by simp
      have "default_loop d mid spr (r # rs) remaining []
              = chosen @ default_loop d mid spr rs (remaining - int (length chosen)) []"
        unfolding default_loop_Cons Let_def chosen_def to_take_def available_def
        using pos False by (simp add: available_def)
      then have "int (length (default_loop d mid spr (r # rs) remaining []))
              = to_take + min (remaining - to_take) (int (length rs) * spr)"
        using ih [of "remaining - to_take"] ch pos by (simp add: to_take_def)
      also have "\<dots> = min remaining (int (length rs) * spr + spr)"
        using nonneg len pos unfolding to_take_def by linarith
      finally show ?thesis unfolding prod .
    qed
  qed
qed


lemma row_letters_length:
  "0 \<le> rows m \<Longrightarrow> rows m \<le> 26 \<Longrightarrow> int (length (row_letters_of m)) = rows m"
  by (simp add: row_letters_of_def py_prefix_def ascii_uppercase_def)

lemma count_split:
  assumes "r \<notin> set rs"
  shows "length (filter (\<lambda>s. Q s \<and> f s \<in> set (r # rs)) xs)
       = length (filter (\<lambda>s. Q s \<and> f s = r) xs) + length (filter (\<lambda>s. Q s \<and> f s \<in> set rs) xs)"
  using assms by (induction xs) auto

lemma count_rows:
  assumes "distinct rs"
    and "\<And>r. r \<in> set rs \<Longrightarrow> int (length (filter (\<lambda>s. Q s \<and> f s = r) xs)) = k"
  shows "int (length (filter (\<lambda>s. Q s \<and> f s \<in> set rs) xs)) = int (length rs) * k"
  using assms
proof (induction rs)
  case Nil
  then show ?case by simp
next
  case (Cons r rs)
  then have "r \<notin> set rs" by simp
  from count_split [OF this, of Q f xs] Cons show ?case
    by (simp add: algebra_simps)
qed

lemma filter_conj_le: "length (filter (\<lambda>s. Q s \<and> P s) xs) \<le> length (filter Q xs)"
  by (induction xs) auto

lemma fresh_total_available:
  assumes "fresh_venue d m"
  shows "rows m * seats_per_row m \<le> total_available d (movie_pk m)"
proof -
  define Q where "Q = (\<lambda>s :: seat. movie_id s = movie_pk m \<and> \<not> is_booked s)"
  have row: "int (length (filter (\<lambda>s. Q s \<and> row_letter s = r) (seat_table d))) = seats_per_row m"
    if "r \<in> set (row_letters_of m)" for r
  proof -
    have "length (map seat_number (get_available_seats_in_row d (movie_pk m) r))
        = length [1..seats_per_row m]"
      using fresh_row [OF assms that] by simp
    moreover have "filter (\<lambda>s. Q s \<and> row_letter s = r) (seat_table d)
        = filter (\<lambda>s. movie_id s = movie_pk m \<and> row_letter s = r \<and> \<not> is_booked s) (seat_table d)"
      by (intro filter_cong refl) (auto simp: Q_def)
    ultimately show ?thesis
      using assms by (simp add: get_available_seats_in_row_def fresh_venue_def)
  qed
  have "int (length (row_letters_of m)) = rows m"
    using assms by (intro row_letters_length) (simp_all add: fresh_venue_def)
  with count_rows [OF row_letters_distinct row, of m]
  have "int (length (filter (\<lambda>s. Q s \<and> row_letter s \<in> set (row_letters_of m)) (seat_table d)))
      = rows m * seats_per_row m"
    by simp
  moreover have "length (filter (\<lambda>s. Q s \<and> row_letter s \<in> set (row_letters_of m)) (seat_table d))
      \<le> length (filter Q (seat_table d))"
    by (rule filter_conj_le)
  ultimately show ?thesis
    by (simp add: total_available_def Q_def)
qed


lemma default_loop_distinct_rows:
  assumes "\<And>r. r \<in> set rs \<Longrightarrow> distinct (get_available_seats_in_row d mid r)"
    and "distinct rs"
  shows "distinct (default_loop d mid spr rs remaining [])"
  using assms
proof (induction rs arbitrary: remaining)
  case Nil
  then show ?case by simp
next
  case (Cons r rs)
  then have r: "r \<notin> set rs" and ih: "\<And>k. distinct (default_loop d mid spr rs k [])"
    by simp_all
  have ch: "distinct (select_centered_seats (get_available_seats_in_row d mid r) c p)" for c p
    using Cons.prems(1) [of r] by (intro select_centered_distinct) simp
  show ?case
    unfolding default_loop_Cons Let_def
    using r ih ch by (auto dest: default_loop_members selected_from_row)
qed

lemma fresh_default_seats:
  assumes fresh: "fresh_venue d m" and n: "0 \<le> n" "n \<le> rows m * seats_per_row m"
  shows "int (length (get_default_seats d (movie_pk m) n)) = n"
    and "distinct (get_default_seats d (movie_pk m) n)"
    and "\<And>s. s \<in> set (get_default_seats d (movie_pk m) n) \<Longrightarrow>
          s \<in> set (seat_table d) \<and> movie_id s = movie_pk m
          \<and> row_letter s \<in> set (row_letters_of m)
          \<and> 1 \<le> seat_number s \<and> seat_number s \<le> seats_per_row m"
proof -
  have m: "query_movie d (movie_pk m) = Some m" and rows: "0 \<le> rows m" "rows m \<le> 26"
    and spr: "0 \<le> seats_per_row m"
    using fresh by (simp_all add: fresh_venue_def)
  have eq: "get_default_seats d (movie_pk m) n
      = default_loop d (movie_pk m) (seats_per_row m) (row_letters_of m) n []"
    using m by (simp add: get_default_seats_def get_row_letters_for_movie_def)
  have "int (length (get_default_seats d (movie_pk m) n))
      = min n (int (length (row_letters_of m)) * seats_per_row m)"
    unfolding eq using fresh_row [OF fresh] spr n(1) by (intro default_loop_length)
  then show "int (length (get_default_seats d (movie_pk m) n)) = n"
    using row_letters_length [OF rows] n(2) by simp
  have "distinct (get_available_seats_in_row d (movie_pk m) r)"
    if "r \<in> set (row_letters_of m)" for r
  proof -
    have "distinct (map seat_number (get_available_seats_in_row d (movie_pk m) r))"
      using fresh_row [OF fresh that] by simp
    then show ?thesis by (simp add: distinct_map)
  qed
  then show "distinct (get_default_seats d (movie_pk m) n)"
    unfolding eq using row_letters_distinct by (intro default_loop_distinct_rows)
  fix s assume "s \<in> set (get_default_seats d (movie_pk m) n)"
  then have s: "s \<in> set (seat_table d)" "movie_id s = movie_pk m"
    "row_letter s \<in> set (row_letters_of m)" "\<not> is_booked s"
    unfolding eq by (auto dest: default_loop_members)
  then have "s \<in> set (get_available_seats_in_row d (movie_pk m) (row_letter s))"
    by (simp add: available_row_set)
  then have "seat_number s \<in> set (map seat_number
      (get_available_seats_in_row d (movie_pk m) (row_letter s)))"
    by simp
  then have "seat_number s \<in> set [1..seats_per_row m]"
    using fresh_row [OF fresh s(3)] by simp
  with s show "s \<in> set (seat_table d) \<and> movie_id s = movie_pk m
          \<and> row_letter s \<in> set (row_letters_of m)
          \<and> 1 \<le> seat_number s \<and> seat_number s \<le> seats_per_row m"
    by simp
qed

text \<open>Every venue that \<open>create_seats_for_movie\<close> sets up is such a venue.\<close>

lemma filter_enumerate_values:
  "map snd (filter (\<lambda>(k, x). P x) (enumerate k0 xs)) = filter P xs"
  by (induction xs arbitrary: k0) auto

lemma grid_row:
  assumes "distinct rs" and "r \<in> set rs"
  shows "filter (\<lambda>(r', n). r' = r) (concat (map (\<lambda>r. map (Pair r) ns) rs)) = map (Pair r) ns"
  using assms
proof (induction rs)
  case Nil
  then show ?case by simp
next
  case (Cons a rs)
  have same: "filter (\<lambda>(r', n). r' = r) (map (Pair r) ns) = map (Pair r) ns"
    by (induction ns) auto
  have other: "filter (\<lambda>(r', n). r' = r) (map (Pair a) ns) = []" if "a \<noteq> r" for a
    using that by (induction ns) auto
  have none: "filter (\<lambda>(r', n). r' = r) (concat (map (\<lambda>r. map (Pair r) ns) rs)) = []"
    if "r \<notin> set rs"
    using that by (induction rs) (auto simp: other)
  show ?case
  proof (cases "a = r")
    case True
    with Cons.prems have "r \<notin> set rs" by simp
    with True same none show ?thesis by simp
  next
    case False
    with Cons show ?thesis by (simp add: other)
  qed
qed

lemma new_venue_fresh:
  assumes "1 \<le> nr" "nr \<le> 26" "1 \<le> spr"
  shows "fresh_venue (new_venue nr spr) \<lparr>movie_pk = 1, rows = nr, seats_per_row = spr\<rparr>"
proof -
  let ?m = "\<lparr>movie_pk = 1, rows = nr, seats_per_row = spr\<rparr>"
  define grid where "grid = concat (map (\<lambda>r. map (Pair r) [1..spr]) (row_letters_of ?m))"
  define mk where "mk = (\<lambda>(k :: nat, r, n).
      \<lparr>seat_pk = int k + 1, movie_id = 1, row_letter = r, seat_number = n, is_booked = False\<rparr>)"
  have table: "seat_table (new_venue nr spr) = map mk (enumerate 0 grid)"
    by (simp add: new_venue_def create_seats_for_movie_def Let_def grid_def mk_def)
  have movie: "query_movie (new_venue nr spr) 1 = Some ?m"
    by (simp add: new_venue_def create_seats_for_movie_def Let_def query_movie_def)
  have unbooked: "list_all (\<lambda>s. movie_id s = movie_pk ?m \<longrightarrow> \<not> is_booked s)
      (seat_table (new_venue nr spr))"
    by (auto simp: table list_all_iff mk_def)
  have row: "map seat_number (sort_key seat_number
        (filter (\<lambda>s. movie_id s = movie_pk ?m \<and> row_letter s = r)
           (seat_table (new_venue nr spr)))) = [1..spr]"
    if r: "r \<in> set (row_letters_of ?m)" for r
  proof -
    have "filter (\<lambda>s. movie_id s = movie_pk ?m \<and> row_letter s = r) (map mk (enumerate 0 grid))
        = map mk (filter (\<lambda>(k, x). (\<lambda>(r', n). r' = r) x) (enumerate 0 grid))"
      by (auto simp: filter_map comp_def mk_def intro!: arg_cong [where f = "map _"] filter_cong)
    moreover have "map seat_number (map mk xs) = map (snd \<circ> snd) xs" for xs
      by (auto simp: mk_def)
    ultimately have "map seat_number
        (filter (\<lambda>s. movie_id s = movie_pk ?m \<and> row_letter s = r) (map mk (enumerate 0 grid)))
        = map snd (map snd (filter (\<lambda>(k, x). (\<lambda>(r', n). r' = r) x) (enumerate 0 grid)))"
      by simp
    also have "\<dots> = map snd (filter (\<lambda>(r', n). r' = r) grid)"
      by (simp only: filter_enumerate_values)
    also have "\<dots> = [1..spr]"
      unfolding grid_def grid_row [OF row_letters_distinct r] by (simp add: comp_def)
    finally have nums: "map seat_number
        (filter (\<lambda>s. movie_id s = movie_pk ?m \<and> row_letter s = r) (seat_table (new_venue nr spr)))
        = [1..spr]"
      unfolding table .
    then have "sorted (map seat_number
        (filter (\<lambda>s. movie_id s = movie_pk ?m \<and> row_letter s = r) (seat_table (new_venue nr spr))))"
      by simp
    then show ?thesis
      using nums by (simp add: sort_key_id_if_sorted)
  qed
  show ?thesis
    unfolding fresh_venue_def list_all_iff
    using assms movie unbooked row by (simp add: list_all_iff)
qed

lemma fresh_new_venue_2_5:
  "fresh_venue (new_venue 2 5) \<lparr>movie_pk = 1, rows = 2, seats_per_row = 5\<rparr>"
  by code_simp

lemma default_new_venue_2_5:
  "allocate_seats (new_venue 2 5) 1 3 None
     = Inr \<lparr>success = True, seats = free_seats (CHR ''A'') [2, 3, 4], error = None\<rparr>"
  by code_simp

text \<open>
  Claim C5. For every venue with no booked seats and every number of tickets from 0
  to rows times seats_per_row, default allocation succeeds and returns exactly that
  many seats, all distinct and all seats of the venue. A new venue of 2 rows of 5
  seats is such a venue, and allocate for 3 tickets selects A2, A3, A4.
\<close>

theorem C5_default_allocation_fresh_venue:
  "(fresh_venue d m \<and> 0 \<le> n \<and> n \<le> rows m * seats_per_row m \<longrightarrow>
      (\<exists>sel. allocate_seats d (movie_pk m) n None
                = Inr \<lparr>success = True, seats = sel, error = None\<rparr>
         \<and> int (length sel) = n \<and> distinct sel
         \<and> (\<forall>s\<in>set sel. s \<in> set (seat_table d) \<and> movie_id s = movie_pk m
               \<and> row_letter s \<in> set (row_letters_of m)
               \<and> 1 \<le> seat_number s \<and> seat_number s \<le> seats_per_row m)))
   \<and> fresh_venue (new_venue 2 5) \<lparr>movie_pk = 1, rows = 2, seats_per_row = 5\<rparr>
   \<and> allocate_seats (new_venue 2 5) 1 3 None
       = Inr \<lparr>success = True, seats = free_seats (CHR ''A'') [2, 3, 4], error = None\<rparr>"
proof (intro conjI impI)
  assume a: "fresh_venue d m \<and> 0 \<le> n \<and> n \<le> rows m * seats_per_row m"
  then have fresh: "fresh_venue d m" and n: "0 \<le> n" "n \<le> rows m * seats_per_row m"
    by simp_all
  note sel = fresh_default_seats [OF fresh n]
  have m: "query_movie d (movie_pk m) = Some m"
    using fresh by (simp add: fresh_venue_def)
  have "\<not> total_available d (movie_pk m) < n"
    using fresh_total_available [OF fresh] n(2) by linarith
  then have "allocate_seats d (movie_pk m) n None
      = Inr \<lparr>success = True, seats = get_default_seats d (movie_pk m) n, error = None\<rparr>"
    using m sel(1) by (simp add: allocate_seats_def check_length_def)
  with sel show "\<exists>sel. allocate_seats d (movie_pk m) n None
                = Inr \<lparr>success = True, seats = sel, error = None\<rparr>
         \<and> int (length sel) = n \<and> distinct sel
         \<and> (\<forall>s\<in>set sel. s \<in> set (seat_table d) \<and> movie_id s = movie_pk m
               \<and> row_letter s \<in> set (row_letters_of m)
               \<and> 1 \<le> seat_number s \<and> seat_number s \<le> seats_per_row m)"
    by blast
qed (rule fresh_new_venue_2_5 default_new_venue_2_5)+

theorem C5_default_allocation_fresh_venue_witness:
  "\<exists>sel. allocate_seats (new_venue 2 5) 1 10 None
            = Inr \<lparr>success = True, seats = sel, error = None\<rparr>
       \<and> int (length sel) = 10 \<and> distinct sel"
proof -
  let ?m = "\<lparr>movie_pk = 1, rows = 2, seats_per_row = 5\<rparr>"
  have "fresh_venue (new_venue 2 5) ?m \<and> (0 :: int) \<le> 10 \<and> 10 \<le> rows ?m * seats_per_row ?m"
    using fresh_new_venue_2_5 by simp
  with C5_default_allocation_fresh_venue [of "new_venue 2 5" ?m 10]
  show ?thesis by auto
qed

section \<open>The booking-detail seating map\<close>

lemma find_filter: "find P (filter Q xs) = find (\<lambda>x. Q x \<and> P x) xs"
  by (induction xs) auto

lemma find_SomeD: "find P xs = Some x \<Longrightarrow> x \<in> set xs \<and> P x"
  by (induction xs) (auto split: if_splits)

lemma slot_marker_status:
  assumes "all_seats = filter (\<lambda>s. movie_id s = movie_pk m) (seat_table d)"
    and "viewed = set (map seat_id
           (filter (\<lambda>bs. booking_id bs = booking_pk b) (booking_seat_table d)))"
    and "other = set (map seat_id (filter (\<lambda>bs. seat_id bs \<notin> viewed)
           [bs. bs \<leftarrow> booking_seat_table d, s \<leftarrow> seat_table d,
                seat_id bs = seat_pk s \<and> movie_id s = movie_pk m]))"
  shows "slot_marker all_seats viewed other r k = slot_status d b m r k"
proof (cases "find (\<lambda>s. movie_id s = movie_pk m \<and> row_letter s = r \<and> seat_number s = k)
             (seat_table d)")
  case None
  then show ?thesis
    by (simp add: slot_marker_def slot_status_def assms(1) find_filter)
next
  case (Some s)
  from find_SomeD [OF this] have s: "s \<in> set (seat_table d)" "movie_id s = movie_pk m"
    by simp_all
  have vin: "x \<in> viewed \<longleftrightarrow>
      (\<exists>bs\<in>set (booking_seat_table d). booking_id bs = booking_pk b \<and> seat_id bs = x)" for x
    unfolding assms(2) by auto
  have oin: "x \<in> other \<longleftrightarrow>
      (\<exists>bs\<in>set (booking_seat_table d). seat_id bs = x \<and> x \<notin> viewed
         \<and> (\<exists>s\<in>set (seat_table d). seat_pk s = x \<and> movie_id s = movie_pk m))" for x
    unfolding assms(3) by (auto simp: image_iff) force
  have v: "seat_pk s \<in> viewed \<longleftrightarrow>
      list_ex (\<lambda>bs. booking_id bs = booking_pk b \<and> seat_id bs = seat_pk s) (booking_seat_table d)"
    unfolding vin list_ex_iff ..
  have o: "seat_pk s \<in> other \<longleftrightarrow>
      list_ex (\<lambda>bs. booking_id bs \<noteq> booking_pk b \<and> seat_id bs = seat_pk s) (booking_seat_table d)"
    if nv: "seat_pk s \<notin> viewed"
  proof -
    have "booking_id bs \<noteq> booking_pk b"
      if "bs \<in> set (booking_seat_table d)" "seat_id bs = seat_pk s" for bs
      using nv that unfolding vin by blast
    then show ?thesis
      unfolding oin list_ex_iff using nv s by blast
  qed
  from Some v o show ?thesis
    by (simp add: slot_marker_def slot_status_def assms(1) find_filter)
qed


text \<open>
  Claim C8. The booking-detail map lists the rows that have seat records in
  descending row-letter order and, in each row, the slots 1..seats_per_row; each
  slot is marked self when its seat belongs to the viewed booking, other when it
  belongs to another booking, available otherwise, and available when no seat
  record exists for the slot.
\<close>

theorem C8_booking_seating_map:
  assumes "query_movie d (booking_movie_id b) = Some m"
  shows "\<exists>mp. get_booking_seating_map d b = Inr mp
     \<and> sorted (rev (map letter (map_rows mp))) \<and> distinct (map letter (map_rows mp))
     \<and> set (map letter (map_rows mp))
         = row_letter ` {s \<in> set (seat_table d). movie_id s = movie_pk m}
     \<and> (\<forall>row\<in>set (map_rows mp).
           map number (cells row) = [1..seats_per_row m]
           \<and> (\<forall>c\<in>set (cells row).
                 marker c = slot_status d b m (letter row) (number c)))"
proof -
  define all_seats where "all_seats = filter (\<lambda>s. movie_id s = movie_pk m) (seat_table d)"
  define viewed where "viewed = set (map seat_id
           (filter (\<lambda>bs. booking_id bs = booking_pk b) (booking_seat_table d)))"
  define other where "other = set (map seat_id (filter (\<lambda>bs. seat_id bs \<notin> viewed)
           [bs. bs \<leftarrow> booking_seat_table d, s \<leftarrow> seat_table d,
                seat_id bs = seat_pk s \<and> movie_id s = movie_pk m]))"
  define row_letters where "row_letters = rev (sort (remdups (map row_letter all_seats)))"
  define mp where "mp = \<lparr>map_rows =
       map (\<lambda>r. \<lparr>letter = r,
                 cells = map (\<lambda>seat_num.
                   \<lparr>number = seat_num,
                    marker = slot_marker all_seats viewed other r seat_num,
                    label = r # py_str seat_num\<rparr>) [1..seats_per_row m]\<rparr>) row_letters,
       map_seats_per_row = seats_per_row m, map_movie = m\<rparr>"
  have res: "get_booking_seating_map d b = Inr mp"
    using assms
    by (simp add: get_booking_seating_map_def Let_def mp_def row_letters_def other_def
        viewed_def all_seats_def)
  have letters: "map letter (map_rows mp) = row_letters"
    by (simp add: mp_def comp_def)
  have "sorted (rev (map letter (map_rows mp)))" "distinct (map letter (map_rows mp))"
    unfolding letters by (simp_all add: row_letters_def)
  moreover have "set (map letter (map_rows mp))
         = row_letter ` {s \<in> set (seat_table d). movie_id s = movie_pk m}"
    unfolding letters by (simp add: row_letters_def all_seats_def)
  moreover have "\<forall>row\<in>set (map_rows mp).
           map number (cells row) = [1..seats_per_row m]
           \<and> (\<forall>c\<in>set (cells row).
                 marker c = slot_status d b m (letter row) (number c))"
    using slot_marker_status [OF all_seats_def viewed_def other_def]
    by (auto simp: mp_def comp_def)
  ultimately show ?thesis using res by blast
qed

theorem C8_booking_seating_map_witness:
  "\<exists>mp. get_booking_seating_map two_bookings \<lparr>booking_pk = 1, booking_movie_id = 1\<rparr> = Inr mp
      \<and> map letter (map_rows mp) = ''BA''
      \<and> map (\<lambda>row. map marker (cells row)) (map_rows mp) = [''.#.'', ''oo.'']
      \<and> sorted (rev (map letter (map_rows mp)))
      \<and> list_all (\<lambda>row. map number (cells row) = [1, 2, 3]) (map_rows mp)"
proof -
  let ?b = "\<lparr>booking_pk = 1, booking_movie_id = 1\<rparr>"
  let ?m = "\<lparr>movie_pk = 1, rows = 2, seats_per_row = 3\<rparr>"
  have m: "query_movie two_bookings (booking_movie_id ?b) = Some ?m" by code_simp
  from C8_booking_seating_map [OF m] obtain mp where
    all: "get_booking_seating_map two_bookings ?b = Inr mp
     \<and> sorted (rev (map letter (map_rows mp))) \<and> distinct (map letter (map_rows mp))
     \<and> set (map letter (map_rows mp))
         = row_letter ` {s \<in> set (seat_table two_bookings). movie_id s = movie_pk ?m}
     \<and> (\<forall>row\<in>set (map_rows mp).
           map number (cells row) = [1..seats_per_row ?m]
           \<and> (\<forall>c\<in>set (cells row).
                 marker c = slot_status two_bookings ?b ?m (letter row) (number c)))" ..
  then have res: "get_booking_seating_map two_bookings ?b = Inr mp"
    and srt: "sorted (rev (map letter (map_rows mp)))"
    and cells: "\<forall>row\<in>set (map_rows mp). map number (cells row) = [1..seats_per_row ?m]"
    by blast+
  have "map letter (map_rows (projr (get_booking_seating_map two_bookings ?b))) = ''BA''"
    by code_simp
  then have l: "map letter (map_rows mp) = ''BA''" unfolding res sum.sel .
  have "map (\<lambda>row. map marker (cells row))
      (map_rows (projr (get_booking_seating_map two_bookings ?b))) = [''.#.'', ''oo.'']"
    by code_simp
  then have k: "map (\<lambda>row. map marker (cells row)) (map_rows mp) = [''.#.'', ''oo.'']"
    unfolding res sum.sel .
  have "[1..seats_per_row ?m] = [1, 2, 3]" by code_simp
  then have "list_all (\<lambda>row. map number (cells row) = [1, 2, 3]) (map_rows mp)"
    using cells unfolding list_all_iff by metis
  with res l k srt show ?thesis by (intro exI [of _ mp] conjI)
qed

end
